theory Spec2Isabelle
  imports Complex_Main "HOL-Library.Multiset"
begin

section \<open>Numbers\<close>

text \<open>
  The program computes with JavaScript numbers. They are modelled as mathematical reals:
  rounding of the floating-point operations, \<open>NaN\<close> and the infinities are outside the
  model. Where the source starts a running maximum at \<open>-Infinity\<close> or a running minimum
  at \<open>Number.POSITIVE_INFINITY\<close>, the model uses \<open>None\<close> for the infinite start value.
  Array positions and line counts are natural numbers.
\<close>

section \<open>Mosaic layout solver (src/lib/layoutSolver.ts)\<close>

subsection \<open>Data model\<close>

text \<open>
  The fields of the source's interfaces carry a short prefix here, because a record field
  is a global constant and the source's field names (\<open>x\<close>, \<open>y\<close>, \<open>width\<close>, ...) are shared
  by several interfaces.
\<close>

record LayoutRect =
  lr_index :: nat
  lr_x :: real
  lr_y :: real
  lr_width :: real
  lr_height :: real

record ContainerRect =
  cr_x :: real
  cr_y :: real
  cr_width :: real
  cr_height :: real

record LayoutSolution =
  rects :: "LayoutRect list"
  usedWidth :: real

datatype Orientation = Vertical | Horizontal

text \<open>\<open>LayoutNode = LeafNode | SplitNode\<close>; both carry a \<open>ratio\<close> field.\<close>

datatype LayoutNode =
    Leaf nat real
  | Split Orientation LayoutNode LayoutNode real

fun node_ratio :: "LayoutNode \<Rightarrow> real" where
  "node_ratio (Leaf i r) = r"
| "node_ratio (Split ori l r q) = q"

subsection \<open>Building the candidate trees\<close>

definition buildLeaf :: "nat \<Rightarrow> real \<Rightarrow> LayoutNode" where
  "buildLeaf i ratio = Leaf i (max ratio (1/10))"

definition buildSplit :: "Orientation \<Rightarrow> LayoutNode \<Rightarrow> LayoutNode \<Rightarrow> LayoutNode" where
  "buildSplit ori l r =
     Split ori l r
       (if ori = Vertical then node_ratio l + node_ratio r
        else 1 / (1 / node_ratio l + 1 / node_ratio r))"

text \<open>
  \<open>generatePermutations\<close>: for every position \<open>idx\<close> of the source, in order, the item at
  \<open>idx\<close> followed by every permutation of the rest.
\<close>

function generatePermutations :: "'a list \<Rightarrow> 'a list list" where
  "generatePermutations source =
     (if length source \<le> 1 then [source]
      else concat (map (\<lambda>idx.
             map (\<lambda>perm. (source ! idx) # perm)
                 (generatePermutations (take idx source @ drop (idx + 1) source)))
             [0..<length source]))"
  by pat_completeness auto
termination
  by (relation "measure length") auto

declare generatePermutations.simps [simp del]

text \<open>
  \<open>buildTrees\<close>: a single index is a leaf; otherwise every split point, every left tree,
  every right tree, first the vertical and then the horizontal split. Reading \<open>ratios\<close>
  outside its range would give \<open>undefined\<close> in the source; the solver only passes
  permutations of the positions of \<open>ratios\<close>.
\<close>

function buildTrees :: "nat list \<Rightarrow> real list \<Rightarrow> LayoutNode list" where
  "buildTrees indices ratios =
     (if length indices = 1 then [buildLeaf (indices ! 0) (ratios ! (indices ! 0))]
      else concat (map (\<lambda>split.
             concat (map (\<lambda>leftNode.
               concat (map (\<lambda>rightNode.
                 [buildSplit Vertical leftNode rightNode,
                  buildSplit Horizontal leftNode rightNode])
                 (buildTrees (drop split indices) ratios)))
               (buildTrees (take split indices) ratios)))
             [1..<length indices]))"
  by pat_completeness auto
termination
  by (relation "measure (\<lambda>(indices, ratios). length indices)") auto

declare buildTrees.simps [simp del]

subsection \<open>Laying a tree out in a container\<close>

definition place :: "nat \<Rightarrow> ContainerRect \<Rightarrow> LayoutRect" where
  "place i c = \<lparr>lr_index = i, lr_x = cr_x c, lr_y = cr_y c,
                lr_width = cr_width c, lr_height = cr_height c\<rparr>"

fun fallbackIndex :: "LayoutNode \<Rightarrow> nat" where
  "fallbackIndex (Leaf i r) = i"
| "fallbackIndex (Split ori l r q) = 0"

fun layoutTree :: "LayoutNode \<Rightarrow> ContainerRect \<Rightarrow> LayoutRect list" where
  "layoutTree (Leaf i r) container = [place i container]"
| "layoutTree (Split Vertical left right q) container =
     (let totalRatio = node_ratio left + node_ratio right in
      if totalRatio \<le> 0 then [place (fallbackIndex left) container]
      else
        let maxHeight = min (cr_height container) (cr_width container / totalRatio);
            usedWidth = totalRatio * maxHeight;
            offsetX = cr_x container + (cr_width container - usedWidth) / 2;
            offsetY = cr_y container + (cr_height container - maxHeight) / 2;
            leftWidth = maxHeight * node_ratio left;
            rightWidth = maxHeight * node_ratio right;
            leftContainer = \<lparr>cr_x = offsetX, cr_y = offsetY,
                             cr_width = leftWidth, cr_height = maxHeight\<rparr>;
            rightContainer = \<lparr>cr_x = offsetX + leftWidth, cr_y = offsetY,
                              cr_width = rightWidth, cr_height = maxHeight\<rparr>
        in layoutTree left leftContainer @ layoutTree right rightContainer)"
| "layoutTree (Split Horizontal left right q) container =
     (let ratio = q in
      if ratio \<le> 0 then [place (fallbackIndex left) container]
      else
        let availableWidth = min (cr_width container) (cr_height container * ratio);
            usedHeight = availableWidth / ratio;
            offsetX = cr_x container + (cr_width container - availableWidth) / 2;
            offsetY = cr_y container + (cr_height container - usedHeight) / 2;
            topHeight = availableWidth / node_ratio left;
            bottomHeight = availableWidth / node_ratio right;
            topContainer = \<lparr>cr_x = offsetX, cr_y = offsetY,
                            cr_width = availableWidth, cr_height = topHeight\<rparr>;
            bottomContainer = \<lparr>cr_x = offsetX, cr_y = offsetY + topHeight,
                               cr_width = availableWidth, cr_height = bottomHeight\<rparr>
        in layoutTree left topContainer @ layoutTree right bottomContainer)"

subsection \<open>The solver\<close>

definition layoutScore :: "LayoutRect list \<Rightarrow> real" where
  "layoutScore layout = foldl (\<lambda>sum rect. sum + lr_width rect * lr_height rect) 0 layout"

text \<open>
  The search state is \<open>(bestLayout, bestScore)\<close>; \<open>bestScore = None\<close> is the start value
  \<open>-Infinity\<close>, below every score.
\<close>

definition considerLayout ::
  "LayoutRect list \<times> real option \<Rightarrow> LayoutRect list \<Rightarrow> LayoutRect list \<times> real option" where
  "considerLayout best layout =
     (let score = layoutScore layout in
      if (case snd best of None \<Rightarrow> True | Some bestScore \<Rightarrow> score > bestScore)
      then (layout, Some score) else best)"

definition searchBest ::
  "real list \<Rightarrow> real \<Rightarrow> real \<Rightarrow> LayoutRect list \<times> real option" where
  "searchBest aspectRatios containerWidth containerHeight =
     foldl (\<lambda>best perm.
        foldl (\<lambda>best tree.
           considerLayout best
             (layoutTree tree \<lparr>cr_x = 0, cr_y = 0,
                               cr_width = containerWidth, cr_height = containerHeight\<rparr>))
          best (buildTrees perm aspectRatios))
       ([], None)
       (generatePermutations [0..<length aspectRatios])"

definition minLeft :: "LayoutRect list \<Rightarrow> real option" where
  "minLeft sortedRects =
     foldl (\<lambda>m rect. case m of None \<Rightarrow> Some (lr_x rect)
                               | Some v \<Rightarrow> Some (min v (lr_x rect))) None sortedRects"

definition maxRightEdge :: "LayoutRect list \<Rightarrow> real" where
  "maxRightEdge sortedRects = foldl (\<lambda>m rect. max m (lr_x rect + lr_width rect)) 0 sortedRects"

text \<open>
  \<open>aspectRatios[0] || 1\<close> replaces a zero ratio by 1. For two or more ratios the winner
  of the search is sorted by index (a stable sort) and shifted left by \<open>minX\<close>; with
  \<open>minX\<close> infinite (no rect at all) the source's \<open>Math.max(maxRight - minX, 1)\<close> is 1 and
  the list of shifted rects is empty.
\<close>

definition computeOptimalLayout :: "real list \<Rightarrow> real \<Rightarrow> real \<Rightarrow> LayoutSolution" where
  "computeOptimalLayout aspectRatios containerWidth containerHeight =
     (if length aspectRatios = 0 then \<lparr>rects = [], usedWidth = containerWidth\<rparr>
      else if length aspectRatios = 1 then
        (let ratio = (if aspectRatios ! 0 = 0 then 1 else aspectRatios ! 0);
             naturalWidth = containerHeight * ratio;
             width = min containerWidth (max naturalWidth (containerWidth * (1/4)))
         in \<lparr>rects = [\<lparr>lr_index = 0, lr_x = 0, lr_y = 0,
                        lr_width = width, lr_height = containerHeight\<rparr>],
             usedWidth = width\<rparr>)
      else
        (let bestLayout = fst (searchBest aspectRatios containerWidth containerHeight);
             sortedRects = sort_key lr_index bestLayout;
             maxRight = maxRightEdge sortedRects
         in case minLeft sortedRects of
              None \<Rightarrow> \<lparr>rects = [], usedWidth = min 1 containerWidth\<rparr>
            | Some minX \<Rightarrow>
                \<lparr>rects = map (\<lambda>rect. rect\<lparr>lr_x := lr_x rect - minX\<rparr>) sortedRects,
                 usedWidth = min (max (maxRight - minX) 1) containerWidth\<rparr>))"

section \<open>Typography fitter (src/lib/textFit.ts)\<close>

subsection \<open>Strings\<close>

text \<open>
  Strings are lists of 8-bit characters. The white space of \<open>String.prototype.trim\<close> and
  of the regular expression class \<open>\s\<close> is, among these, tab, line feed, vertical tab,
  form feed, carriage return, space and the no-break space; the white space beyond code
  255 is outside the model.
\<close>

definition isWhitespace :: "char \<Rightarrow> bool" where
  "isWhitespace c = (c \<in> set [CHR 0x09, CHR 0x0A, CHR 0x0B, CHR 0x0C, CHR 0x0D, CHR 0x20, CHR 0xA0])"

definition trim :: "string \<Rightarrow> string" where
  "trim s = rev (dropWhile isWhitespace (rev (dropWhile isWhitespace s)))"

text \<open>\<open>text.split(/\r?\n/)\<close>: a line feed, with the carriage return before it if there is one, separates.\<close>

fun splitLinesFrom :: "string \<Rightarrow> string \<Rightarrow> string list" where
  "splitLinesFrom acc [] = [rev acc]"
| "splitLinesFrom acc [c] =
     (if c = CHR 0x0A then [rev acc, []] else [rev (c # acc)])"
| "splitLinesFrom acc (c # d # cs) =
     (if c = CHR 0x0A then rev acc # splitLinesFrom [] (d # cs)
      else if c = CHR 0x0D \<and> d = CHR 0x0A then rev acc # splitLinesFrom [] cs
      else splitLinesFrom (c # acc) (d # cs))"

definition splitLines :: "string \<Rightarrow> string list" where
  "splitLines s = splitLinesFrom [] s"

text \<open>
  \<open>paragraph.split(/\s+/)\<close>: every maximal run of white space separates; a run at the
  start or at the end leaves an empty string before or after it.
\<close>

function splitWhitespaceFrom :: "string \<Rightarrow> string \<Rightarrow> string list" where
  "splitWhitespaceFrom acc [] = [rev acc]"
| "splitWhitespaceFrom acc (c # cs) =
     (if isWhitespace c then rev acc # splitWhitespaceFrom [] (dropWhile isWhitespace cs)
      else splitWhitespaceFrom (c # acc) cs)"
  by pat_completeness auto
termination
  by (relation "measure (\<lambda>(acc, s). length s)")
     (auto simp: length_dropWhile_le le_imp_less_Suc)

definition splitWhitespace :: "string \<Rightarrow> string list" where
  "splitWhitespace s = splitWhitespaceFrom [] s"

subsection \<open>Options, result and the measurement capability\<close>

record TextFitOptions =
  maxWidth :: real
  maxHeight :: real
  maxLines :: nat
  maxFontSize :: real
  minFontSize :: real
  fontWeight :: string
  lineHeightMultiplier :: real

record TextFit =
  fontSize :: real
  lineHeight :: real
  fitLines :: "string list"

text \<open>
  The canvas context is used for one thing, \<open>ctx.measureText(s).width\<close> under the font
  that was assigned to \<open>ctx.font\<close> last. The font string is built from the weight and the
  size in pixels, so the context is a function from weight, size and text to a width.
  \<open>wrapText\<close> receives the context with its font already set: a function from text to
  width.
\<close>

type_synonym MeasureText = "string \<Rightarrow> real \<Rightarrow> string \<Rightarrow> real"

subsection \<open>wrapText\<close>

text \<open>The body of \<open>words.forEach\<close>, on the state \<open>(currentLine, lines)\<close>.\<close>

definition placeWord ::
  "(string \<Rightarrow> real) \<Rightarrow> real \<Rightarrow> nat \<Rightarrow> string \<times> string list \<Rightarrow> string \<Rightarrow> string \<times> string list" where
  "placeWord measureWidth maxW maxL state word =
     (let currentLine = fst state; lines = snd state;
          nextLine = (if currentLine \<noteq> [] then currentLine @ '' '' @ word else word);
          width = measureWidth nextLine
      in if width > maxW \<and> currentLine \<noteq> []
         then (word, if length lines < maxL then lines @ [currentLine] else lines)
         else (nextLine, lines))"

text \<open>
  The loop over the paragraphs, from paragraph \<open>i\<close> on, with the lines collected so far.
  \<open>rest \<noteq> []\<close> is \<open>i < paragraphs.length - 1\<close>, and \<open>take maxL\<close> is \<open>lines.slice(0, maxLines)\<close>.
\<close>

fun wrapParagraphs ::
  "(string \<Rightarrow> real) \<Rightarrow> real \<Rightarrow> nat \<Rightarrow> string list \<Rightarrow> string list \<Rightarrow> string list" where
  "wrapParagraphs measureWidth maxW maxL [] lines = lines"
| "wrapParagraphs measureWidth maxW maxL (p # rest) lines =
     (let paragraph = trim p in
      if length paragraph = 0 then
        (let lines1 = (if length lines < maxL then lines @ [[]] else lines)
         in if length lines1 \<ge> maxL then take maxL lines1
            else wrapParagraphs measureWidth maxW maxL rest lines1)
      else
        (let ws = splitWhitespace paragraph;
             state = foldl (placeWord measureWidth maxW maxL) ([], lines) ws;
             currentLine = fst state;
             lines1 = snd state;
             lines2 = (if currentLine \<noteq> [] \<and> length lines1 < maxL
                       then lines1 @ [currentLine] else lines1);
             hasMoreParagraphs = (rest \<noteq> []);
             canAddBreak = (length lines2 < maxL);
             lines3 = (if hasMoreParagraphs \<and> canAddBreak then lines2 @ [[]] else lines2)
         in if length lines3 \<ge> maxL then take maxL lines3
            else wrapParagraphs measureWidth maxW maxL rest lines3))"

definition wrapText :: "(string \<Rightarrow> real) \<Rightarrow> string \<Rightarrow> real \<Rightarrow> nat \<Rightarrow> string list" where
  "wrapText measureWidth text maxW maxL = wrapParagraphs measureWidth maxW maxL (splitLines text) []"

subsection \<open>fitTextBlock\<close>

definition fallbackFit :: "MeasureText \<Rightarrow> string \<Rightarrow> TextFitOptions \<Rightarrow> TextFit" where
  "fallbackFit ctx ws options =
     (let fallbackSize = minFontSize options;
          lines = wrapText (ctx (fontWeight options) fallbackSize) ws
                    (maxWidth options) (maxLines options)
      in \<lparr>fontSize = fallbackSize,
          lineHeight = fallbackSize * lineHeightMultiplier options,
          fitLines = (if length lines > 0 then lines else [[]])\<rparr>)"

text \<open>
  The \<open>for\<close> loop from the candidate size \<open>sz\<close> on: the size goes down in steps of 1 while it is
  at least \<open>minFontSize\<close>; after the loop comes the fallback. Over the reals the loop ends
  after finitely many steps.
\<close>

function fitLoop :: "MeasureText \<Rightarrow> string \<Rightarrow> TextFitOptions \<Rightarrow> real \<Rightarrow> TextFit" where
  "fitLoop ctx ws options sz =
     (if sz \<ge> minFontSize options then
        (let lines = wrapText (ctx (fontWeight options) sz) ws
                       (maxWidth options) (maxLines options);
             lh = sz * lineHeightMultiplier options;
             blockHeight = real (length lines) * lh
         in if blockHeight \<le> maxHeight options
            then \<lparr>fontSize = sz, lineHeight = lh, fitLines = lines\<rparr>
            else fitLoop ctx ws options (sz - 1))
      else fallbackFit ctx ws options)"
  by pat_completeness auto
termination
proof (relation "measure (\<lambda>(ctx, ws, options, sz). nat (\<lfloor>sz - minFontSize options\<rfloor> + 1))")
  show "wf (measure (\<lambda>(ctx, ws, options, sz). nat (\<lfloor>sz - minFontSize options\<rfloor> + 1)))"
    by simp
next
  fix ctx :: MeasureText and ws :: string and options :: TextFitOptions and sz :: real
    and x xa xb
  assume "minFontSize options \<le> sz"
  then have "0 \<le> \<lfloor>sz - minFontSize options\<rfloor>" by simp
  moreover have "sz - 1 - minFontSize options = (sz - minFontSize options) - 1"
    by simp
  then have "\<lfloor>sz - 1 - minFontSize options\<rfloor> = \<lfloor>sz - minFontSize options\<rfloor> - 1"
    by (simp only: floor_diff_one)
  ultimately show "((ctx, ws, options, sz - 1), (ctx, ws, options, sz))
        \<in> measure (\<lambda>(ctx, ws, options, sz). nat (\<lfloor>sz - minFontSize options\<rfloor> + 1))"
    by simp
qed

declare fitLoop.simps [simp del]

definition fitTextBlock :: "MeasureText \<Rightarrow> string \<Rightarrow> TextFitOptions \<Rightarrow> TextFit" where
  "fitTextBlock ctx rawText options =
     (let text = trim rawText;
          ws = (if length text > 0 then text else '' '')
      in fitLoop ctx ws options (maxFontSize options))"

section \<open>Vocabulary for the properties of the solver\<close>

text \<open>
  \<open>leafIndices\<close> lists the frame indices of a tree from left to right, \<open>leafRatios\<close>
  the leaves with their ratios, \<open>nodeRatios\<close> the \<open>ratio\<close> field of every node.
  \<open>builtNode\<close> holds of the trees that \<open>buildLeaf\<close> and \<open>buildSplit\<close> produce: leaf
  ratios of at least 0.1 and split ratios combined from the children. \<open>takesFallback\<close>
  follows the branches of \<open>layoutTree\<close> and tells whether a run reaches one of the two
  \<open>ratio <= 0\<close> returns; the conditions do not depend on the container.
  \<open>clamp\<close> is the helper of the preview component, \<open>Math.min(Math.max(value, min), max)\<close>.
  \<open>candidateLayouts\<close> lists the layouts in the order in which the search visits them,
  and \<open>coveredArea\<close> is used width times used height of a root of ratio \<open>q\<close>.
\<close>

fun leafIndices :: "LayoutNode \<Rightarrow> nat list" where
  "leafIndices (Leaf i r) = [i]"
| "leafIndices (Split ori l r q) = leafIndices l @ leafIndices r"

fun builtNode :: "LayoutNode \<Rightarrow> bool" where
  "builtNode (Leaf i r) = (1/10 \<le> r)"
| "builtNode (Split ori l r q) =
     (builtNode l \<and> builtNode r \<and>
      q = (if ori = Vertical then node_ratio l + node_ratio r
           else 1 / (1 / node_ratio l + 1 / node_ratio r)))"

fun takesFallback :: "LayoutNode \<Rightarrow> bool" where
  "takesFallback (Leaf i r) = False"
| "takesFallback (Split Vertical l r q) =
     (if node_ratio l + node_ratio r \<le> 0 then True
      else takesFallback l \<or> takesFallback r)"
| "takesFallback (Split Horizontal l r q) =
     (if q \<le> 0 then True else takesFallback l \<or> takesFallback r)"

fun leafRatios :: "LayoutNode \<Rightarrow> (nat \<times> real) list" where
  "leafRatios (Leaf i r) = [(i, r)]"
| "leafRatios (Split ori l r q) = leafRatios l @ leafRatios r"

fun nodeRatios :: "LayoutNode \<Rightarrow> real list" where
  "nodeRatios (Leaf i r) = [r]"
| "nodeRatios (Split ori l r q) = q # nodeRatios l @ nodeRatios r"

definition clamp :: "real \<Rightarrow> real \<Rightarrow> real \<Rightarrow> real" where
  "clamp v lo hi = min (max v lo) hi"

definition rectArea :: "LayoutRect \<Rightarrow> real" where
  "rectArea rect = lr_width rect * lr_height rect"

definition coveredArea :: "real \<Rightarrow> real \<Rightarrow> real \<Rightarrow> real" where
  "coveredArea q W H = min W (H * q) * min H (W / q)"

definition rootContainer :: "real \<Rightarrow> real \<Rightarrow> ContainerRect" where
  "rootContainer W H = \<lparr>cr_x = 0, cr_y = 0, cr_width = W, cr_height = H\<rparr>"

definition candidateLayouts :: "real list \<Rightarrow> real \<Rightarrow> real \<Rightarrow> LayoutRect list list" where
  "candidateLayouts aspectRatios W H =
     concat (map (\<lambda>perm. map (\<lambda>tree. layoutTree tree (rootContainer W H))
                             (buildTrees perm aspectRatios))
                 (generatePermutations [0..<length aspectRatios]))"

text \<open>
  \<open>builtFrom ratios\<close> adds where the leaf ratios come from: leaf \<open>i\<close> carries
  \<open>Math.max(ratios[i], 0.1)\<close>. \<open>relabel f\<close> renames the frame indices at the leaves, and
  \<open>rectShape\<close> is the width-height pair of a rect.
\<close>

fun builtFrom :: "real list \<Rightarrow> LayoutNode \<Rightarrow> bool" where
  "builtFrom ratios (Leaf i r) = (r = max (ratios ! i) (1/10))"
| "builtFrom ratios (Split ori l r q) =
     (builtFrom ratios l \<and> builtFrom ratios r \<and>
      q = (if ori = Vertical then node_ratio l + node_ratio r
           else 1 / (1 / node_ratio l + 1 / node_ratio r)))"

fun relabel :: "(nat \<Rightarrow> nat) \<Rightarrow> LayoutNode \<Rightarrow> LayoutNode" where
  "relabel f (Leaf i r) = Leaf (f i) r"
| "relabel f (Split ori l r q) = Split ori (relabel f l) (relabel f r) q"


text \<open>
  The containers that \<open>layoutTree\<close> hands to the two children of a split, as functions
  of the children's ratios and the split's own ratio.
\<close>

definition verticalLeft :: "real \<Rightarrow> real \<Rightarrow> ContainerRect \<Rightarrow> ContainerRect" where
  "verticalLeft a b c =
     (let maxHeight = min (cr_height c) (cr_width c / (a + b)) in
      \<lparr>cr_x = cr_x c + (cr_width c - (a + b) * maxHeight) / 2,
       cr_y = cr_y c + (cr_height c - maxHeight) / 2,
       cr_width = maxHeight * a, cr_height = maxHeight\<rparr>)"

definition verticalRight :: "real \<Rightarrow> real \<Rightarrow> ContainerRect \<Rightarrow> ContainerRect" where
  "verticalRight a b c =
     (let maxHeight = min (cr_height c) (cr_width c / (a + b)) in
      \<lparr>cr_x = cr_x c + (cr_width c - (a + b) * maxHeight) / 2 + maxHeight * a,
       cr_y = cr_y c + (cr_height c - maxHeight) / 2,
       cr_width = maxHeight * b, cr_height = maxHeight\<rparr>)"

definition horizontalTop :: "real \<Rightarrow> real \<Rightarrow> real \<Rightarrow> ContainerRect \<Rightarrow> ContainerRect" where
  "horizontalTop q a b c =
     (let availableWidth = min (cr_width c) (cr_height c * q) in
      \<lparr>cr_x = cr_x c + (cr_width c - availableWidth) / 2,
       cr_y = cr_y c + (cr_height c - availableWidth / q) / 2,
       cr_width = availableWidth, cr_height = availableWidth / a\<rparr>)"

definition horizontalBottom :: "real \<Rightarrow> real \<Rightarrow> real \<Rightarrow> ContainerRect \<Rightarrow> ContainerRect" where
  "horizontalBottom q a b c =
     (let availableWidth = min (cr_width c) (cr_height c * q) in
      \<lparr>cr_x = cr_x c + (cr_width c - availableWidth) / 2,
       cr_y = cr_y c + (cr_height c - availableWidth / q) / 2 + availableWidth / a,
       cr_width = availableWidth, cr_height = availableWidth / b\<rparr>)"

section \<open>Vocabulary for the properties of the fitter\<close>

text \<open>
  A measurement capability for concrete examples: every character is 0.6 times the font
  size wide, whatever the weight. \<open>blockFits\<close> is the test of the fitting loop at one size.
\<close>

definition fixedPitch :: MeasureText where
  "fixedPitch weight sz s = sz * (6/10) * real (length s)"

definition blockFits :: "MeasureText \<Rightarrow> string \<Rightarrow> TextFitOptions \<Rightarrow> real \<Rightarrow> bool" where
  "blockFits ctx ws options sz =
     (real (length (wrapText (ctx (fontWeight options) sz) ws (maxWidth options) (maxLines options)))
        * (sz * lineHeightMultiplier options) \<le> maxHeight options)"

text \<open>
  \<open>paragraphLines\<close> is the list of lines after one round of the paragraph loop of
  \<open>wrapText\<close>, before the test \<open>lines.length >= maxLines\<close>; \<open>fitWords\<close> is the text that
  \<open>fitTextBlock\<close> hands to \<open>wrapText\<close>.
\<close>

definition paragraphLines ::
  "(string \<Rightarrow> real) \<Rightarrow> real \<Rightarrow> nat \<Rightarrow> string \<Rightarrow> bool \<Rightarrow> string list \<Rightarrow> string list" where
  "paragraphLines m maxW maxL p hasMore lines =
     (if trim p = [] then (if length lines < maxL then lines @ [[]] else lines)
      else
        (let state = foldl (placeWord m maxW maxL) ([], lines) (splitWhitespace (trim p));
             lines2 = (if fst state \<noteq> [] \<and> length (snd state) < maxL
                       then snd state @ [fst state] else snd state)
         in if hasMore \<and> length lines2 < maxL then lines2 @ [[]] else lines2))"

definition fitWords :: "string \<Rightarrow> string" where
  "fitWords rawText = (if length (trim rawText) > 0 then trim rawText else '' '')"

text \<open>
  The options of the title block of the poster in a 400 x 300 box: at most 3 lines, font
  sizes from 56 down to 28, bold, line height 1.12.
\<close>

definition titleOptions :: TextFitOptions where
  "titleOptions = \<lparr>maxWidth = 400, maxHeight = 300, maxLines = 3, maxFontSize = 56,
                    minFontSize = 28, fontWeight = ''bold'', lineHeightMultiplier = 112/100\<rparr>"

section \<open>Properties of the layout solver\<close>

lemma harmonic_pos: "0 < a \<Longrightarrow> 0 < b \<Longrightarrow> 0 < 1 / (1 / a + 1 / (b::real))"
  by (simp add: add_pos_pos)

lemma builtNode_ratio_pos: "builtNode t \<Longrightarrow> 0 < node_ratio t"
proof (induction t)
  case (Leaf i r)
  then show ?case by simp
next
  case (Split ori l r q)
  then show ?case by (cases ori) (auto simp: harmonic_pos add_pos_pos)
qed

lemma builtNode_no_fallback: "builtNode t \<Longrightarrow> \<not> takesFallback t"
proof (induction t)
  case (Leaf i r)
  then show ?case by simp
next
  case (Split ori l r q)
  have "0 < node_ratio (Split ori l r q)"
    using Split.prems by (rule builtNode_ratio_pos)
  then show ?case using Split by (cases ori) auto
qed

lemma builtNode_buildLeaf: "builtNode (buildLeaf i r)"
  by (simp add: buildLeaf_def)

lemma builtNode_buildSplit: "builtNode l \<Longrightarrow> builtNode r \<Longrightarrow> builtNode (buildSplit ori l r)"
  by (simp add: buildSplit_def)

lemma leafIndices_buildSplit: "leafIndices (buildSplit ori l r) = leafIndices l @ leafIndices r"
  by (simp add: buildSplit_def)

lemma buildTrees_sound:
  "t \<in> set (buildTrees indices ratios) \<Longrightarrow> builtNode t \<and> leafIndices t = indices"
proof (induction indices ratios arbitrary: t rule: buildTrees.induct)
  case (1 indices ratios)
  show ?case
  proof (cases "length indices = 1")
    case True
    then obtain i where "indices = [i]" by (cases indices) auto
    with "1.prems" show ?thesis
      by (simp add: buildTrees.simps builtNode_buildLeaf buildLeaf_def)
  next
    case False
    with "1.prems" obtain split leftNode rightNode ori where
      s: "split \<in> set [1..<length indices]"
      and l: "leftNode \<in> set (buildTrees (take split indices) ratios)"
      and r: "rightNode \<in> set (buildTrees (drop split indices) ratios)"
      and t: "t = buildSplit ori leftNode rightNode"
      by (subst (asm) buildTrees.simps) auto
    have "builtNode leftNode \<and> leafIndices leftNode = take split indices"
      using "1.IH" False s l by blast
    moreover have "builtNode rightNode \<and> leafIndices rightNode = drop split indices"
      using "1.IH" False s l r by blast
    ultimately show ?thesis
      by (simp add: t builtNode_buildSplit leafIndices_buildSplit)
  qed
qed

lemma layoutScore_sum: "layoutScore layout = sum_list (map rectArea layout)"
proof -
  have "foldl (\<lambda>sum rect. sum + lr_width rect * lr_height rect) a layout
        = a + sum_list (map rectArea layout)" for a
    by (induction layout arbitrary: a) (simp_all add: rectArea_def)
  then show ?thesis by (simp add: layoutScore_def)
qed

lemma layoutTree_Vertical:
  "layoutTree (Split Vertical l r q) c =
     (if node_ratio l + node_ratio r \<le> 0 then [place (fallbackIndex l) c]
      else layoutTree l (verticalLeft (node_ratio l) (node_ratio r) c)
           @ layoutTree r (verticalRight (node_ratio l) (node_ratio r) c))"
  by (simp add: Let_def verticalLeft_def verticalRight_def)

lemma layoutTree_Horizontal:
  "layoutTree (Split Horizontal l r q) c =
     (if q \<le> 0 then [place (fallbackIndex l) c]
      else layoutTree l (horizontalTop q (node_ratio l) (node_ratio r) c)
           @ layoutTree r (horizontalBottom q (node_ratio l) (node_ratio r) c))"
  by (simp add: Let_def horizontalTop_def horizontalBottom_def)

lemma layoutTree_indices:
  "\<not> takesFallback t \<Longrightarrow> map lr_index (layoutTree t c) = leafIndices t"
proof (induction t arbitrary: c)
  case (Leaf i r)
  then show ?case by (simp add: place_def)
next
  case (Split ori l r q)
  show ?case
  proof (cases ori)
    case Vertical
    with Split show ?thesis
      by (simp add: layoutTree_Vertical del: layoutTree.simps split: if_splits)
  next
    case Horizontal
    with Split show ?thesis
      by (simp add: layoutTree_Horizontal del: layoutTree.simps split: if_splits)
  qed
qed

lemma layoutTree_fitted_area:
  "builtNode t \<Longrightarrow> cr_width c = cr_height c * node_ratio t \<Longrightarrow>
   sum_list (map rectArea (layoutTree t c)) = cr_width c * cr_height c"
proof (induction t arbitrary: c)
  case (Leaf i r)
  then show ?case by (simp add: place_def rectArea_def)
next
  case (Split ori l r q)
  have bl: "builtNode l" and br: "builtNode r" using Split.prems by auto
  have pl: "0 < node_ratio l" and pr: "0 < node_ratio r"
    using bl br by (auto intro: builtNode_ratio_pos)
  have pq: "0 < q" using builtNode_ratio_pos[OF Split.prems(1)] by simp
  have w: "cr_width c = cr_height c * q" using Split.prems(2) by simp
  show ?case
  proof (cases ori)
    case Vertical
    then have q: "q = node_ratio l + node_ratio r" using Split.prems by simp
    have m: "min (cr_height c) (cr_width c / q) = cr_height c"
      using w pq by simp
    let ?lc = "\<lparr>cr_x = cr_x c + (cr_width c - q * cr_height c) / 2,
                cr_y = cr_y c + (cr_height c - cr_height c) / 2,
                cr_width = cr_height c * node_ratio l, cr_height = cr_height c\<rparr>"
    let ?rc = "\<lparr>cr_x = cr_x c + (cr_width c - q * cr_height c) / 2 + cr_height c * node_ratio l,
                cr_y = cr_y c + (cr_height c - cr_height c) / 2,
                cr_width = cr_height c * node_ratio r, cr_height = cr_height c\<rparr>"
    have "sum_list (map rectArea (layoutTree l ?lc)) = cr_width ?lc * cr_height ?lc"
      by (rule Split.IH(1)[OF bl]) simp
    moreover have "sum_list (map rectArea (layoutTree r ?rc)) = cr_width ?rc * cr_height ?rc"
      by (rule Split.IH(2)[OF br]) simp
    moreover have "layoutTree (Split ori l r q) c = layoutTree l ?lc @ layoutTree r ?rc"
      using Vertical pq m q by (simp add: Let_def)
    ultimately show ?thesis
      using w q by (simp add: algebra_simps)
  next
    case Horizontal
    then have q: "q = 1 / (1 / node_ratio l + 1 / node_ratio r)" using Split.prems by simp
    have m: "min (cr_width c) (cr_height c * q) = cr_width c"
      using w by simp
    have h: "cr_width c / q = cr_height c" using w pq by simp
    let ?tc = "\<lparr>cr_x = cr_x c + (cr_width c - cr_width c) / 2,
                cr_y = cr_y c + (cr_height c - cr_width c / q) / 2,
                cr_width = cr_width c, cr_height = cr_width c / node_ratio l\<rparr>"
    let ?bc = "\<lparr>cr_x = cr_x c + (cr_width c - cr_width c) / 2,
                cr_y = cr_y c + (cr_height c - cr_width c / q) / 2 + cr_width c / node_ratio l,
                cr_width = cr_width c, cr_height = cr_width c / node_ratio r\<rparr>"
    have "sum_list (map rectArea (layoutTree l ?tc)) = cr_width ?tc * cr_height ?tc"
      by (rule Split.IH(1)[OF bl]) (use pl in simp)
    moreover have "sum_list (map rectArea (layoutTree r ?bc)) = cr_width ?bc * cr_height ?bc"
      by (rule Split.IH(2)[OF br]) (use pr in simp)
    moreover have "layoutTree (Split ori l r q) c = layoutTree l ?tc @ layoutTree r ?bc"
      using Horizontal pq m by (simp add: Let_def)
    moreover have "cr_width c * (cr_width c / node_ratio l) + cr_width c * (cr_width c / node_ratio r)
                   = cr_width c * (cr_width c / q)"
      using pl pr by (simp add: q field_simps)
    ultimately show ?thesis
      using h by simp
  qed
qed

lemma layoutTree_root_area:
  assumes b: "builtNode (Split ori l r q)"
  shows "layoutScore (layoutTree (Split ori l r q) (rootContainer W H)) = coveredArea q W H"
proof -
  have bl: "builtNode l" and br: "builtNode r" using b by auto
  have pl: "0 < node_ratio l" and pr: "0 < node_ratio r"
    using bl br by (auto intro: builtNode_ratio_pos)
  have pq: "0 < q" using builtNode_ratio_pos[OF b] by simp
  show ?thesis
  proof (cases ori)
    case Vertical
    then have q: "q = node_ratio l + node_ratio r" using b by simp
    define m where "m = min H (W / q)"
    let ?lc = "\<lparr>cr_x = 0 + (W - q * m) / 2, cr_y = 0 + (H - m) / 2,
                cr_width = m * node_ratio l, cr_height = m\<rparr>"
    let ?rc = "\<lparr>cr_x = 0 + (W - q * m) / 2 + m * node_ratio l, cr_y = 0 + (H - m) / 2,
                cr_width = m * node_ratio r, cr_height = m\<rparr>"
    have "sum_list (map rectArea (layoutTree l ?lc)) = cr_width ?lc * cr_height ?lc"
      by (rule layoutTree_fitted_area[OF bl]) simp
    moreover have "sum_list (map rectArea (layoutTree r ?rc)) = cr_width ?rc * cr_height ?rc"
      by (rule layoutTree_fitted_area[OF br]) simp
    moreover have "layoutTree (Split ori l r q) (rootContainer W H)
                   = layoutTree l ?lc @ layoutTree r ?rc"
      using Vertical pq q by (simp add: Let_def rootContainer_def m_def)
    ultimately have s: "layoutScore (layoutTree (Split ori l r q) (rootContainer W H))
                        = m * node_ratio l * m + m * node_ratio r * m"
      by (simp add: layoutScore_sum)
    have "min W (H * q) = q * m"
      using pq by (auto simp: m_def min_def field_simps)
    then have "coveredArea q W H = q * m * m"
      by (simp add: coveredArea_def m_def)
    with s show ?thesis by (simp add: q algebra_simps)
  next
    case Horizontal
    then have q: "q = 1 / (1 / node_ratio l + 1 / node_ratio r)" using b by simp
    define a where "a = min W (H * q)"
    let ?tc = "\<lparr>cr_x = 0 + (W - a) / 2, cr_y = 0 + (H - a / q) / 2,
                cr_width = a, cr_height = a / node_ratio l\<rparr>"
    let ?bc = "\<lparr>cr_x = 0 + (W - a) / 2, cr_y = 0 + (H - a / q) / 2 + a / node_ratio l,
                cr_width = a, cr_height = a / node_ratio r\<rparr>"
    have "sum_list (map rectArea (layoutTree l ?tc)) = cr_width ?tc * cr_height ?tc"
      by (rule layoutTree_fitted_area[OF bl]) (use pl in simp)
    moreover have "sum_list (map rectArea (layoutTree r ?bc)) = cr_width ?bc * cr_height ?bc"
      by (rule layoutTree_fitted_area[OF br]) (use pr in simp)
    moreover have "layoutTree (Split ori l r q) (rootContainer W H)
                   = layoutTree l ?tc @ layoutTree r ?bc"
      using Horizontal pq by (simp add: Let_def rootContainer_def a_def)
    ultimately have s: "layoutScore (layoutTree (Split ori l r q) (rootContainer W H))
                        = a * (a / node_ratio l) + a * (a / node_ratio r)"
      by (simp add: layoutScore_sum)
    have "a * (a / node_ratio l) + a * (a / node_ratio r) = a * (a / q)"
      using pl pr by (simp add: q field_simps)
    moreover have "min H (W / q) = a / q"
      using pq by (auto simp: a_def min_def field_simps)
    then have "coveredArea q W H = a * (a / q)"
      by (simp add: coveredArea_def a_def)
    ultimately show ?thesis using s by simp
  qed
qed

lemma coveredArea_le:
  assumes "0 < q" "0 \<le> W" "0 \<le> H"
  shows "coveredArea q W H \<le> W * H"
proof -
  have "0 \<le> min H (W / q)" using assms by simp
  moreover have "min W (H * q) \<le> W" "min H (W / q) \<le> H" by simp_all
  ultimately show ?thesis
    unfolding coveredArea_def using assms by (intro mult_mono) auto
qed

lemma generatePermutations_sound:
  "p \<in> set (generatePermutations source) \<Longrightarrow> mset p = mset source"
proof (induction source arbitrary: p rule: generatePermutations.induct)
  case (1 source)
  show ?case
  proof (cases "length source \<le> 1")
    case True
    with "1.prems" show ?thesis by (simp add: generatePermutations.simps)
  next
    case False
    with "1.prems" obtain idx perm where
      i: "idx \<in> set [0..<length source]"
      and pm: "perm \<in> set (generatePermutations (take idx source @ drop (idx + 1) source))"
      and p: "p = source ! idx # perm"
      by (subst (asm) generatePermutations.simps) auto
    have "mset perm = mset (take idx source @ drop (idx + 1) source)"
      using "1.IH"[OF False i pm] .
    moreover have "source = take idx source @ source ! idx # drop (Suc idx) source"
      using i by (simp add: id_take_nth_drop)
    then have "mset source = add_mset (source ! idx) (mset (take idx source @ drop (idx + 1) source))"
      by (metis Suc_eq_plus1 mset.simps(2) mset_append union_mset_add_mset_right)
    ultimately show ?thesis by (simp add: p)
  qed
qed

lemma generatePermutations_complete:
  "mset p = mset source \<Longrightarrow> p \<in> set (generatePermutations source)"
proof (induction source arbitrary: p rule: generatePermutations.induct)
  case (1 source)
  have len: "length p = length source" using "1.prems" by (rule mset_eq_length)
  show ?case
  proof (cases "length source \<le> 1")
    case True
    have "p = source"
    proof (cases source)
      case Nil
      with len show ?thesis by simp
    next
      case (Cons a as)
      with True have "as = []" by simp
      with Cons "1.prems" show ?thesis by (cases p) (auto simp: len)
    qed
    with True show ?thesis by (simp add: generatePermutations.simps)
  next
    case False
    then obtain a p' where p: "p = a # p'" using len by (cases p) auto
    have "a \<in> set source" using "1.prems" p by (metis list.set_intros(1) mset_eq_setD)
    then obtain idx where i: "idx < length source" and a: "source ! idx = a"
      by (auto simp: in_set_conv_nth)
    have "source = take idx source @ source ! idx # drop (Suc idx) source"
      using i by (simp add: id_take_nth_drop)
    then have "mset source = add_mset a (mset (take idx source @ drop (idx + 1) source))"
      by (metis a Suc_eq_plus1 mset.simps(2) mset_append union_mset_add_mset_right)
    with "1.prems" p have "mset p' = mset (take idx source @ drop (idx + 1) source)" by simp
    then have "p' \<in> set (generatePermutations (take idx source @ drop (idx + 1) source))"
      using "1.IH"[OF False] i by simp
    then show ?thesis
      using False i a p by (subst generatePermutations.simps) auto
  qed
qed

lemma foldl_nested_flat:
  "foldl (\<lambda>b p. foldl (\<lambda>b t. g b (h t)) b (F p)) b0 ps
   = foldl g b0 (concat (map (\<lambda>p. map h (F p)) ps))"
  by (induction ps arbitrary: b0) (simp_all add: foldl_map)

lemma searchBest_flat:
  "searchBest rs W H = foldl considerLayout ([], None) (candidateLayouts rs W H)"
  unfolding searchBest_def candidateLayouts_def rootContainer_def
  by (rule foldl_nested_flat)

lemma foldl_considerLayout_Some:
  "\<exists>b'. foldl considerLayout (b, Some (layoutScore b)) cs = (b', Some (layoutScore b'))
        \<and> b' \<in> insert b (set cs)
        \<and> layoutScore b' = Max (insert (layoutScore b) (layoutScore ` set cs))"
proof (induction cs arbitrary: b)
  case Nil
  then show ?case by simp
next
  case (Cons c cs)
  define b1 where "b1 = (if layoutScore c > layoutScore b then c else b)"
  have step: "considerLayout (b, Some (layoutScore b)) c = (b1, Some (layoutScore b1))"
    by (simp add: considerLayout_def b1_def)
  obtain b' where b': "foldl considerLayout (b1, Some (layoutScore b1)) cs = (b', Some (layoutScore b'))"
    "b' \<in> insert b1 (set cs)"
    "layoutScore b' = Max (insert (layoutScore b1) (layoutScore ` set cs))"
    using Cons.IH[of b1] by blast
  have "layoutScore b1 = max (layoutScore b) (layoutScore c)"
    by (simp add: b1_def max_def)
  then have "Max (insert (layoutScore b1) (layoutScore ` set cs))
             = Max (insert (layoutScore b) (layoutScore ` set (c # cs)))"
    by (cases "cs = []") (simp_all add: max.assoc)
  moreover have "b' \<in> insert b (set (c # cs))"
    using b'(2) by (auto simp: b1_def split: if_splits)
  ultimately show ?case using b'(1,3) step by simp
qed

lemma foldl_considerLayout_None:
  assumes "cs \<noteq> []"
  shows "\<exists>b'. foldl considerLayout ([], None) cs = (b', Some (layoutScore b'))
        \<and> b' \<in> set cs \<and> layoutScore b' = Max (layoutScore ` set cs)"
proof -
  obtain c cs' where cs: "cs = c # cs'" using assms by (cases cs) auto
  have step: "considerLayout ([], None) c = (c, Some (layoutScore c))"
    by (simp add: considerLayout_def)
  obtain b' where "foldl considerLayout (c, Some (layoutScore c)) cs' = (b', Some (layoutScore b'))"
    "b' \<in> insert c (set cs')"
    "layoutScore b' = Max (insert (layoutScore c) (layoutScore ` set cs'))"
    using foldl_considerLayout_Some[of c cs'] by blast
  then show ?thesis using step by (simp add: cs)
qed

lemma sort_key_indices:
  assumes "mset (map lr_index layout) = mset [0..<n]"
  shows "map lr_index (sort_key lr_index layout) = [0..<n]"
proof -
  have "mset (map lr_index (sort_key lr_index layout)) = mset [0..<n]"
    using assms by simp
  moreover have "sorted (map lr_index (sort_key lr_index layout))"
    by (rule sorted_sort_key)
  ultimately have "sort [0..<n] = map lr_index (sort_key lr_index layout)"
    by (rule properties_for_sort)
  moreover have "sort [0..<n] = [0..<n]"
    by (rule properties_for_sort) simp_all
  ultimately show ?thesis by simp
qed

lemma buildTrees_split_mem:
  assumes "1 \<le> k" "k < length indices"
    and "l \<in> set (buildTrees (take k indices) ratios)"
    and "r \<in> set (buildTrees (drop k indices) ratios)"
  shows "buildSplit ori l r \<in> set (buildTrees indices ratios)"
proof -
  have "length indices \<noteq> 1" using assms(1,2) by simp
  moreover have "k \<in> set [1..<length indices]" using assms(1,2) by simp
  ultimately show ?thesis
    using assms(3,4) by (subst buildTrees.simps) (cases ori; force)
qed

lemma buildTrees_nonempty:
  "indices \<noteq> [] \<Longrightarrow> \<exists>t. t \<in> set (buildTrees indices ratios)"
proof (induction indices ratios rule: buildTrees.induct)
  case (1 indices ratios)
  show ?case
  proof (cases "length indices = 1")
    case True
    then show ?thesis by (simp add: buildTrees.simps)
  next
    case False
    with "1.prems" have len: "2 \<le> length indices"
      by (cases indices) (auto simp: Suc_le_eq)
    then have k: "1 \<in> set [1..<length indices]" by simp
    have "take 1 indices \<noteq> []" using len by (cases indices) auto
    then obtain l where l: "l \<in> set (buildTrees (take 1 indices) ratios)"
      using "1.IH"(1)[OF False k] by blast
    have "drop 1 indices \<noteq> []" using len by (cases indices) auto
    then obtain r where r: "r \<in> set (buildTrees (drop 1 indices) ratios)"
      using "1.IH"(2)[OF False k l] by blast
    have "buildSplit Vertical l r \<in> set (buildTrees indices ratios)"
      using len l r by (intro buildTrees_split_mem[where k = 1]) auto
    then show ?thesis by blast
  qed
qed

lemma candidateLayouts_built:
  assumes "c \<in> set (candidateLayouts rs W H)"
  shows "\<exists>t. builtNode t \<and> mset (leafIndices t) = mset [0..<length rs]
             \<and> c = layoutTree t (rootContainer W H)"
proof -
  from assms obtain perm t where
    perm: "perm \<in> set (generatePermutations [0..<length rs])"
    and t: "t \<in> set (buildTrees perm rs)"
    and c: "c = layoutTree t (rootContainer W H)"
    by (auto simp: candidateLayouts_def)
  have "builtNode t \<and> leafIndices t = perm" using t by (rule buildTrees_sound)
  moreover have "mset perm = mset [0..<length rs]"
    using perm by (rule generatePermutations_sound)
  ultimately show ?thesis using c by auto
qed

lemma candidateLayouts_nonempty:
  assumes "rs \<noteq> []"
  shows "candidateLayouts rs W H \<noteq> []"
proof -
  have "[0..<length rs] \<in> set (generatePermutations [0..<length rs])"
    by (rule generatePermutations_complete) simp
  moreover obtain t where "t \<in> set (buildTrees [0..<length rs] rs)"
    using buildTrees_nonempty[of "[0..<length rs]" rs] assms by auto
  ultimately have "layoutTree t (rootContainer W H) \<in> set (candidateLayouts rs W H)"
    by (auto simp: candidateLayouts_def)
  then show ?thesis by auto
qed

lemma searchBest_winner:
  assumes "rs \<noteq> []"
  shows "\<exists>t. builtNode t \<and> mset (leafIndices t) = mset [0..<length rs]
           \<and> fst (searchBest rs W H) = layoutTree t (rootContainer W H)
           \<and> layoutScore (fst (searchBest rs W H))
               = Max (layoutScore ` set (candidateLayouts rs W H))"
proof -
  obtain b' where b': "searchBest rs W H = (b', Some (layoutScore b'))"
    "b' \<in> set (candidateLayouts rs W H)"
    "layoutScore b' = Max (layoutScore ` set (candidateLayouts rs W H))"
    using foldl_considerLayout_None[OF candidateLayouts_nonempty[OF assms], of W H]
    by (auto simp: searchBest_flat)
  from candidateLayouts_built[OF b'(2)] b'(1,3) show ?thesis by auto
qed

lemma minLeft_Some: "layout \<noteq> [] \<Longrightarrow> \<exists>m. minLeft layout = Some m"
proof -
  have "\<exists>m. foldl (\<lambda>m rect. case m of None \<Rightarrow> Some (lr_x rect)
                                  | Some v \<Rightarrow> Some (min v (lr_x rect))) (Some v) xs = Some m"
    for v xs
    by (induction xs arbitrary: v) simp_all
  then show "layout \<noteq> [] \<Longrightarrow> \<exists>m. minLeft layout = Some m"
    by (cases layout) (simp_all add: minLeft_def)
qed

lemma solution_rects:
  assumes "2 \<le> length rs"
  shows "\<exists>m. rects (computeOptimalLayout rs W H)
             = map (\<lambda>rect. rect\<lparr>lr_x := lr_x rect - m\<rparr>)
                   (sort_key lr_index (fst (searchBest rs W H)))"
proof (cases "sort_key lr_index (fst (searchBest rs W H)) = []")
  case True
  then have "minLeft (sort_key lr_index (fst (searchBest rs W H))) = None"
    by (simp add: minLeft_def)
  with True assms show ?thesis by (simp add: computeOptimalLayout_def Let_def)
next
  case False
  then obtain m where "minLeft (sort_key lr_index (fst (searchBest rs W H))) = Some m"
    using minLeft_Some by blast
  with assms show ?thesis by (auto simp: computeOptimalLayout_def Let_def)
qed

lemma layoutScore_mset:
  "mset xs = mset ys \<Longrightarrow> layoutScore xs = layoutScore ys"
proof -
  assume "mset xs = mset ys"
  then have "sum_mset (image_mset rectArea (mset xs)) = sum_mset (image_mset rectArea (mset ys))"
    by simp
  then show ?thesis
    by (simp add: layoutScore_sum flip: sum_mset_sum_list)
qed

lemma layoutScore_shift:
  "layoutScore (map (\<lambda>rect. rect\<lparr>lr_x := lr_x rect - m\<rparr>) xs) = layoutScore xs"
proof -
  have "rectArea \<circ> (\<lambda>rect. rect\<lparr>lr_x := lr_x rect - m\<rparr>) = rectArea"
    by (auto simp: rectArea_def fun_eq_iff)
  then show ?thesis by (simp add: layoutScore_sum)
qed

lemma root_area_le:
  assumes "builtNode t" "0 \<le> W" "0 \<le> H"
  shows "layoutScore (layoutTree t (rootContainer W H)) \<le> W * H"
proof (cases t)
  case (Leaf i r)
  then show ?thesis by (simp add: layoutScore_def place_def rootContainer_def)
next
  case (Split ori l r q)
  have "0 < q" using builtNode_ratio_pos[OF assms(1)] Split by simp
  then show ?thesis
    using layoutTree_root_area[of ori l r q W H] assms coveredArea_le[of q W H] Split by simp
qed

lemma solution_multi:
  assumes n: "2 \<le> length rs"
  shows "map lr_index (rects (computeOptimalLayout rs W H)) = [0..<length rs]"
    and "layoutScore (rects (computeOptimalLayout rs W H))
         = Max (layoutScore ` set (candidateLayouts rs W H))"
    and "0 \<le> W \<Longrightarrow> 0 \<le> H \<Longrightarrow> layoutScore (rects (computeOptimalLayout rs W H)) \<le> W * H"
proof -
  have ne: "rs \<noteq> []" using n by auto
  obtain t where t: "builtNode t" "mset (leafIndices t) = mset [0..<length rs]"
    "fst (searchBest rs W H) = layoutTree t (rootContainer W H)"
    "layoutScore (fst (searchBest rs W H)) = Max (layoutScore ` set (candidateLayouts rs W H))"
    using searchBest_winner[OF ne] by blast
  obtain m where m: "rects (computeOptimalLayout rs W H)
             = map (\<lambda>rect. rect\<lparr>lr_x := lr_x rect - m\<rparr>)
                   (sort_key lr_index (fst (searchBest rs W H)))"
    using solution_rects[OF n] by blast
  have "map lr_index (fst (searchBest rs W H)) = leafIndices t"
    using t(1,3) by (simp add: layoutTree_indices builtNode_no_fallback)
  then have "mset (map lr_index (fst (searchBest rs W H))) = mset [0..<length rs]"
    using t(2) by simp
  then have "map lr_index (sort_key lr_index (fst (searchBest rs W H))) = [0..<length rs]"
    by (rule sort_key_indices)
  then show "map lr_index (rects (computeOptimalLayout rs W H)) = [0..<length rs]"
    by (simp add: m comp_def)
  have sc: "layoutScore (rects (computeOptimalLayout rs W H)) = layoutScore (fst (searchBest rs W H))"
    unfolding m layoutScore_shift by (rule layoutScore_mset) simp
  then show "layoutScore (rects (computeOptimalLayout rs W H))
         = Max (layoutScore ` set (candidateLayouts rs W H))"
    using t(4) by simp
  show "layoutScore (rects (computeOptimalLayout rs W H)) \<le> W * H" if "0 \<le> W" "0 \<le> H"
    using root_area_le[OF t(1) that] sc t(3) by simp
qed

lemma solution_single:
  "computeOptimalLayout [r] W H =
     \<lparr>rects = [\<lparr>lr_index = 0, lr_x = 0, lr_y = 0,
                lr_width = clamp (H * (if r = 0 then 1 else r)) (W * (1/4)) W,
                lr_height = H\<rparr>],
      usedWidth = clamp (H * (if r = 0 then 1 else r)) (W * (1/4)) W\<rparr>"
  by (simp add: computeOptimalLayout_def clamp_def Let_def min.commute)



lemma builtFrom_builtNode: "builtFrom rs t \<Longrightarrow> builtNode t"
  by (induction t) auto

lemma buildTrees_builtFrom:
  "t \<in> set (buildTrees indices ratios) \<Longrightarrow> builtFrom ratios t"
proof (induction indices ratios arbitrary: t rule: buildTrees.induct)
  case (1 indices ratios)
  show ?case
  proof (cases "length indices = 1")
    case True
    with "1.prems" show ?thesis
      by (simp add: buildTrees.simps buildLeaf_def)
  next
    case False
    with "1.prems" obtain split leftNode rightNode ori where
      s: "split \<in> set [1..<length indices]"
      and l: "leftNode \<in> set (buildTrees (take split indices) ratios)"
      and r: "rightNode \<in> set (buildTrees (drop split indices) ratios)"
      and t: "t = buildSplit ori leftNode rightNode"
      by (subst (asm) buildTrees.simps) auto
    have "builtFrom ratios leftNode" using "1.IH" False s l by blast
    moreover have "builtFrom ratios rightNode" using "1.IH" False s l r by blast
    ultimately show ?thesis by (simp add: t buildSplit_def)
  qed
qed

lemma builtFrom_leafRatios:
  "builtFrom rs t \<Longrightarrow> (i, q) \<in> set (leafRatios t) \<Longrightarrow> q = max (rs ! i) (1/10)"
  by (induction t) auto

lemma builtNode_nodeRatios: "builtNode t \<Longrightarrow> q \<in> set (nodeRatios t) \<Longrightarrow> 0 < q"
proof (induction t)
  case (Leaf i r)
  then show ?case by simp
next
  case (Split ori l r p)
  have "0 < node_ratio (Split ori l r p)" using Split.prems(1) by (rule builtNode_ratio_pos)
  then show ?case using Split by auto
qed

lemma leafIndices_nonempty: "leafIndices t \<noteq> []"
  by (induction t) auto

lemma layoutTree_length_le: "length (layoutTree t c) \<le> length (leafIndices t)"
proof (induction t arbitrary: c)
  case (Leaf i r)
  then show ?case by simp
next
  case (Split ori l r q)
  have one: "1 \<le> length (leafIndices l)"
    using leafIndices_nonempty[of l] by (simp add: Suc_le_eq)
  have two: "length (layoutTree l c1 @ layoutTree r c2) \<le> length (leafIndices l @ leafIndices r)"
    for c1 c2
    using Split.IH(1)[of c1] Split.IH(2)[of c2] by simp
  show ?case
  proof (cases ori)
    case Vertical
    with one two show ?thesis
      by (simp add: layoutTree_Vertical del: layoutTree.simps)
  next
    case Horizontal
    with one two show ?thesis
      by (simp add: layoutTree_Horizontal del: layoutTree.simps)
  qed
qed

lemma fallback_drops_rects:
  "takesFallback t \<Longrightarrow> length (layoutTree t c) < length (leafIndices t)"
proof (induction t arbitrary: c)
  case (Leaf i r)
  then show ?case by simp
next
  case (Split ori l r q)
  have one: "1 < length (leafIndices l @ leafIndices r)"
    using leafIndices_nonempty[of l] leafIndices_nonempty[of r]
    by (cases "leafIndices l"; cases "leafIndices r") auto
  have two: "length (layoutTree l c1 @ layoutTree r c2) < length (leafIndices l @ leafIndices r)"
    if "takesFallback l \<or> takesFallback r" for c1 c2
  proof -
    from that show ?thesis
    proof
      assume "takesFallback l"
      then show ?thesis
        using Split.IH(1)[of c1] layoutTree_length_le[of r c2] by simp
    next
      assume "takesFallback r"
      then show ?thesis
        using Split.IH(2)[of c2] layoutTree_length_le[of l c1] by simp
    qed
  qed
  show ?case
  proof (cases ori)
    case Vertical
    with one two Split.prems show ?thesis
      by (simp add: layoutTree_Vertical del: layoutTree.simps split: if_splits)
  next
    case Horizontal
    with one two Split.prems show ?thesis
      by (simp add: layoutTree_Horizontal del: layoutTree.simps split: if_splits)
  qed
qed

lemma solution_length: "length (rects (computeOptimalLayout rs W H)) = length rs"
proof -
  consider "length rs = 0" | "length rs = 1" | "2 \<le> length rs" by linarith
  then show ?thesis
  proof cases
    case 1
    then show ?thesis by (simp add: computeOptimalLayout_def)
  next
    case 2
    then obtain r where "rs = [r]" by (cases rs) auto
    then show ?thesis by (simp add: solution_single)
  next
    case 3
    have "length (map lr_index (rects (computeOptimalLayout rs W H))) = length [0..<length rs]"
      using solution_multi(1)[OF 3, of W H] by simp
    then show ?thesis by simp
  qed
qed

text \<open>
  Claim C9. \<open>computeOptimalLayout\<close> has no failure path: for every list of ratios, also
  with zero or negative entries, it returns a solution with one rect per ratio. In every
  tree the solver builds (for every enumerated permutation of the positions), leaf \<open>i\<close>
  carries \<open>max (ratios[i]) 0.1\<close>, which is at least 0.1; the ratio of every node is
  strictly positive; and a run of \<open>layoutTree\<close> on the tree reaches neither of the two
  \<open>ratio <= 0\<close> fallback returns.
\<close>

theorem solver_floors_degenerate_ratios:
  "length (rects (computeOptimalLayout rs W H)) = length rs
   \<and> (\<forall>perm \<in> set (generatePermutations [0..<length rs]).
        \<forall>t \<in> set (buildTrees perm rs).
          (\<forall>(i, q) \<in> set (leafRatios t). q = max (rs ! i) (1/10) \<and> 1/10 \<le> q)
          \<and> (\<forall>q \<in> set (nodeRatios t). 0 < q)
          \<and> \<not> takesFallback t)"
proof -
  have "(\<forall>(i, q) \<in> set (leafRatios t). q = max (rs ! i) (1/10) \<and> 1/10 \<le> q)
        \<and> (\<forall>q \<in> set (nodeRatios t). 0 < q) \<and> \<not> takesFallback t"
    if "t \<in> set (buildTrees perm rs)" for perm t
  proof -
    have bf: "builtFrom rs t" using that by (rule buildTrees_builtFrom)
    then have bn: "builtNode t" by (rule builtFrom_builtNode)
    have "q = max (rs ! i) (1/10) \<and> 1/10 \<le> q" if "(i, q) \<in> set (leafRatios t)" for i q
      using builtFrom_leafRatios[OF bf that] by simp
    then have "\<forall>(i, q) \<in> set (leafRatios t). q = max (rs ! i) (1/10) \<and> 1/10 \<le> q"
      by blast
    moreover have "\<forall>q \<in> set (nodeRatios t). 0 < q"
      using builtNode_nodeRatios[OF bn] by auto
    ultimately show ?thesis using builtNode_no_fallback[OF bn] by simp
  qed
  then have "\<forall>perm \<in> set (generatePermutations [0..<length rs]).
        \<forall>t \<in> set (buildTrees perm rs).
          (\<forall>(i, q) \<in> set (leafRatios t). q = max (rs ! i) (1/10) \<and> 1/10 \<le> q)
          \<and> (\<forall>q \<in> set (nodeRatios t). 0 < q)
          \<and> \<not> takesFallback t"
    by (intro ballI)
  with solution_length[of rs W H] show ?thesis by (rule conjI)
qed

theorem solver_floors_degenerate_ratios_witness:
  "length (rects (computeOptimalLayout [0, -1] 1000 600)) = 2
   \<and> [0, 1] \<in> set (generatePermutations [0..<length [0, -1 :: real]])
   \<and> Split Horizontal (Leaf 0 (1/10)) (Leaf 1 (1/10)) (1/20) \<in> set (buildTrees [0, 1] [0, -1])
   \<and> \<not> takesFallback (Split Horizontal (Leaf 0 (1/10)) (Leaf 1 (1/10)) (1/20))"
proof -
  have p: "[0, 1] \<in> set (generatePermutations [0..<length [0, -1 :: real]])"
    by (simp add: generatePermutations.simps upt_conv_Cons)
  have t: "Split Horizontal (Leaf 0 (1/10)) (Leaf 1 (1/10)) (1/20) \<in> set (buildTrees [0, 1] [0, -1])"
    by (simp add: buildTrees.simps buildSplit_def buildLeaf_def upt_conv_Cons)
  show ?thesis
    using solver_floors_degenerate_ratios[of "[0, -1]" 1000 600] p t by fastforce
qed

text \<open>
  Claim C8 as stated fails for the ratio 0: the source reads \<open>aspectRatios[0] || 1\<close>, so a
  zero ratio is replaced by 1 before the natural width is computed. In a 1000 x 600
  container the returned width is 600, where the claimed formula gives 250.
\<close>

theorem single_ratio_zero_counterexample:
  "map lr_width (rects (computeOptimalLayout [0] 1000 600)) = [600]
   \<and> (600 :: real) \<noteq> clamp (600 * 0) (1/4 * 1000) 1000"
  by (simp add: computeOptimalLayout_def clamp_def)

text \<open>
  Claim C8, amended. For a single aspect ratio \<open>r\<close> and a container of width \<open>W \<ge> 0\<close> and
  height \<open>H\<close>, \<open>computeOptimalLayout\<close> returns exactly one rect, with index 0, at the
  origin, of height \<open>H\<close> and width \<open>clamp (H * r') (0.25 * W) W\<close>, where \<open>r'\<close> is \<open>r\<close> for
  \<open>r \<noteq> 0\<close> and 1 for \<open>r = 0\<close>; the width lies in \<open>[0.25 * W, W]\<close> and \<open>usedWidth\<close> equals it.
\<close>

theorem single_ratio_layout:
  assumes "0 \<le> W"
  shows "computeOptimalLayout [r] W H =
           \<lparr>rects = [\<lparr>lr_index = 0, lr_x = 0, lr_y = 0,
                      lr_width = clamp (H * (if r = 0 then 1 else r)) (1/4 * W) W,
                      lr_height = H\<rparr>],
            usedWidth = clamp (H * (if r = 0 then 1 else r)) (1/4 * W) W\<rparr>
         \<and> 1/4 * W \<le> clamp (H * (if r = 0 then 1 else r)) (1/4 * W) W
         \<and> clamp (H * (if r = 0 then 1 else r)) (1/4 * W) W \<le> W"
  using assms by (simp add: solution_single clamp_def mult.commute)

theorem single_ratio_layout_witness:
  "(0::real) \<le> 1000
   \<and> computeOptimalLayout [3/2] 1000 600 =
           \<lparr>rects = [\<lparr>lr_index = 0, lr_x = 0, lr_y = 0, lr_width = 900, lr_height = 600\<rparr>],
            usedWidth = 900\<rparr>
   \<and> (250::real) \<le> 900 \<and> (900::real) \<le> 1000"
  using single_ratio_layout[of 1000 "3/2" 600] by (simp add: clamp_def)


lemma node_ratio_relabel [simp]: "node_ratio (relabel f t) = node_ratio t"
  by (cases t) auto

lemma takesFallback_relabel [simp]: "takesFallback (relabel f t) = takesFallback t"
  by (induction t rule: takesFallback.induct) auto










section \<open>Properties of the typography fitter\<close>

lemma placeWord_first: "placeWord m maxW maxL ([], lines) w = (w, lines)"
  by (simp add: placeWord_def)

lemma placeWord_wrap:
  "cur \<noteq> [] \<Longrightarrow> m (cur @ '' '' @ w) > maxW \<Longrightarrow>
   placeWord m maxW maxL (cur, lines) w
     = (w, if length lines < maxL then lines @ [cur] else lines)"
  unfolding placeWord_def Let_def fst_conv snd_conv by (simp only: if_True simp_thms)

lemma placeWord_extend:
  "cur \<noteq> [] \<Longrightarrow> \<not> m (cur @ '' '' @ w) > maxW \<Longrightarrow>
   placeWord m maxW maxL (cur, lines) w = (cur @ '' '' @ w, lines)"
  unfolding placeWord_def Let_def fst_conv snd_conv by (simp only: if_True if_False simp_thms)

lemma placeWord_cases:
  obtains (first) "cur = []" "placeWord m maxW maxL (cur, lines) w = (w, lines)"
  | (wrap) "cur \<noteq> []"
      "placeWord m maxW maxL (cur, lines) w
         = (w, if length lines < maxL then lines @ [cur] else lines)"
  | (extend) "cur \<noteq> []" "placeWord m maxW maxL (cur, lines) w = (cur @ '' '' @ w, lines)"
proof (cases "cur = []")
  case True
  then show ?thesis using first by (simp add: placeWord_first)
next
  case False
  show ?thesis
  proof (cases "m (cur @ '' '' @ w) > maxW")
    case True
    with False show ?thesis using wrap by (simp add: placeWord_wrap)
  next
    case nofit: False
    with False show ?thesis using extend by (simp add: placeWord_extend)
  qed
qed



lemma wrapParagraphs_Cons:
  "wrapParagraphs m maxW maxL (p # rest) lines =
     (if length (paragraphLines m maxW maxL p (rest \<noteq> []) lines) \<ge> maxL
      then take maxL (paragraphLines m maxW maxL p (rest \<noteq> []) lines)
      else wrapParagraphs m maxW maxL rest (paragraphLines m maxW maxL p (rest \<noteq> []) lines))"
  by (simp add: paragraphLines_def Let_def)





lemma placeWord_keeps_text:
  assumes "1 \<le> maxL" "fst state \<noteq> [] \<or> snd state \<noteq> []"
  shows "fst (placeWord m maxW maxL state w) \<noteq> [] \<or> snd (placeWord m maxW maxL state w) \<noteq> []"
proof (cases state)
  case (Pair cur lines)
  have t: "cur \<noteq> [] \<or> lines \<noteq> []" using assms(2) Pair by simp
  show ?thesis unfolding Pair
    by (rule placeWord_cases[of cur m maxW maxL lines w]) (use t assms(1) in auto)
qed

lemma foldl_placeWord_keeps_text:
  assumes "1 \<le> maxL"
  shows "fst state \<noteq> [] \<or> snd state \<noteq> [] \<Longrightarrow>
     fst (foldl (placeWord m maxW maxL) state ws) \<noteq> []
     \<or> snd (foldl (placeWord m maxW maxL) state ws) \<noteq> []"
proof (induction ws arbitrary: state)
  case Nil
  then show ?case by simp
next
  case (Cons w ws)
  have "fst (placeWord m maxW maxL state w) \<noteq> [] \<or> snd (placeWord m maxW maxL state w) \<noteq> []"
    using assms Cons.prems by (rule placeWord_keeps_text)
  then show ?case using Cons.IH by simp
qed

lemma splitWhitespaceFrom_first:
  "acc \<noteq> [] \<or> (s \<noteq> [] \<and> \<not> isWhitespace (hd s)) \<Longrightarrow>
   \<exists>w ws. splitWhitespaceFrom acc s = w # ws \<and> w \<noteq> []"
proof (induction acc s rule: splitWhitespaceFrom.induct)
  case (1 acc)
  then show ?case by simp
next
  case (2 acc c cs)
  show ?case
  proof (cases "isWhitespace c")
    case True
    with 2(3) have "acc \<noteq> []" by simp
    with True show ?thesis by simp
  next
    case False
    then show ?thesis using 2(2) by simp
  qed
qed

lemma trim_first_char:
  assumes "trim s \<noteq> []"
  shows "\<not> isWhitespace (hd (trim s))"
proof -
  define t where "t = dropWhile isWhitespace s"
  have tn: "t \<noteq> []"
  proof
    assume e: "t = []"
    have "trim s = rev (dropWhile isWhitespace (rev t))" by (simp add: trim_def t_def)
    then have "trim s = []" unfolding e by simp
    with assms show False by simp
  qed
  then obtain a u where t: "t = a # u" by (cases t) auto
  have a: "\<not> isWhitespace a" using hd_dropWhile[of isWhitespace s] tn t by (simp add: t_def)
  have "dropWhile isWhitespace (rev u @ [a]) = dropWhile isWhitespace (rev u) @ [a]
        \<or> dropWhile isWhitespace (rev u @ [a]) = [a]"
    using a by (simp add: dropWhile_append)
  then have "hd (rev (dropWhile isWhitespace (rev t))) = a"
    unfolding t by auto
  moreover have "trim s = rev (dropWhile isWhitespace (rev t))" by (simp add: trim_def t_def)
  ultimately show ?thesis using a by simp
qed

lemma paragraphLines_nonempty:
  assumes "1 \<le> maxL"
  shows "paragraphLines m maxW maxL p hasMore lines \<noteq> []"
proof (cases "trim p = []")
  case True
  then show ?thesis using assms by (cases lines) (simp_all add: paragraphLines_def)
next
  case False
  obtain w ws where ws: "splitWhitespace (trim p) = w # ws" "w \<noteq> []"
    using splitWhitespaceFrom_first[of "[]" "trim p"] False trim_first_char[OF False]
    by (auto simp: splitWhitespace_def)
  define state where "state = foldl (placeWord m maxW maxL) ([], lines) (splitWhitespace (trim p))"
  have "state = foldl (placeWord m maxW maxL) (w, lines) ws"
    by (simp add: state_def ws(1) placeWord_first)
  then have st: "fst state \<noteq> [] \<or> snd state \<noteq> []"
    using foldl_placeWord_keeps_text[OF assms, of "(w, lines)" m maxW ws] ws(2) by simp
  have "(if fst state \<noteq> [] \<and> length (snd state) < maxL
         then snd state @ [fst state] else snd state) \<noteq> []"
    using st assms by (cases "snd state") auto
  then show ?thesis
    using False by (simp add: paragraphLines_def Let_def state_def[symmetric])
qed

lemma wrapParagraphs_nonempty:
  assumes "1 \<le> maxL"
  shows "lines \<noteq> [] \<or> ps \<noteq> [] \<Longrightarrow> wrapParagraphs m maxW maxL ps lines \<noteq> []"
proof (induction ps arbitrary: lines)
  case Nil
  then show ?case by simp
next
  case (Cons p rest)
  have ne: "paragraphLines m maxW maxL p (rest \<noteq> []) lines \<noteq> []"
    using assms by (rule paragraphLines_nonempty)
  then have "take maxL (paragraphLines m maxW maxL p (rest \<noteq> []) lines) \<noteq> []"
    using assms by (cases maxL) auto
  then show ?case
    using Cons.IH[of "paragraphLines m maxW maxL p (rest \<noteq> []) lines"] ne
    by (simp add: wrapParagraphs_Cons del: wrapParagraphs.simps)
qed

lemma splitLinesFrom_nonempty: "splitLinesFrom acc s \<noteq> []"
  by (induction acc s rule: splitLinesFrom.induct) auto

lemma wrapText_nonempty: "1 \<le> maxL \<Longrightarrow> wrapText m text maxW maxL \<noteq> []"
  unfolding wrapText_def
  by (rule wrapParagraphs_nonempty) (simp_all add: splitLines_def splitLinesFrom_nonempty)

lemma fitLoop_unfold:
  "fitLoop ctx ws options sz =
     (if sz \<ge> minFontSize options then
        (if blockFits ctx ws options sz
         then \<lparr>fontSize = sz, lineHeight = sz * lineHeightMultiplier options,
               fitLines = wrapText (ctx (fontWeight options) sz) ws
                            (maxWidth options) (maxLines options)\<rparr>
         else fitLoop ctx ws options (sz - 1))
      else fallbackFit ctx ws options)"
  by (subst fitLoop.simps) (simp add: blockFits_def Let_def)

lemma fallbackFit_fields:
  "fontSize (fallbackFit ctx ws options) = minFontSize options"
  "lineHeight (fallbackFit ctx ws options) = minFontSize options * lineHeightMultiplier options"
  "fitLines (fallbackFit ctx ws options) =
     (if wrapText (ctx (fontWeight options) (minFontSize options)) ws
           (maxWidth options) (maxLines options) = [] then [[]]
      else wrapText (ctx (fontWeight options) (minFontSize options)) ws
           (maxWidth options) (maxLines options))"
  by (simp_all add: fallbackFit_def Let_def)



lemma fitLoop_lines_nonempty:
  "1 \<le> maxLines options \<Longrightarrow> fitLines (fitLoop ctx ws options sz) \<noteq> []"
proof (induction ctx ws options sz rule: fitLoop.induct)
  case (1 ctx ws options sz)
  have wl: "wrapText m ws (maxWidth options) (maxLines options) \<noteq> []" for m
    using "1.prems" by (rule wrapText_nonempty)
  show ?case
  proof (cases "sz \<ge> minFontSize options")
    case False
    then show ?thesis using wl by (subst fitLoop_unfold) (simp add: fallbackFit_fields)
  next
    case True
    show ?thesis
    proof (cases "blockFits ctx ws options sz")
      case fits: True
      with True show ?thesis using wl by (subst fitLoop_unfold) simp
    next
      case nofit: False
      then have "fitLines (fitLoop ctx ws options (sz - 1)) \<noteq> []"
        using "1.IH"[OF True] "1.prems" by (simp add: blockFits_def)
      moreover have "fitLoop ctx ws options sz = fitLoop ctx ws options (sz - 1)"
        using True nofit by (subst fitLoop_unfold) simp
      ultimately show ?thesis by simp
    qed
  qed
qed


lemma fitTextBlock_fitLoop:
  "fitTextBlock ctx rawText options = fitLoop ctx (fitWords rawText) options (maxFontSize options)"
  by (simp add: fitTextBlock_def fitWords_def Let_def)







text \<open>
  Claim C10. For every input text, the empty string and strings of white space included,
  every measurement capability and every options record with \<open>maxLines \<ge> 1\<close>, the lines
  returned by \<open>fitTextBlock\<close> have at least one element.
\<close>

theorem fitTextBlock_never_empty:
  assumes "1 \<le> maxLines options"
  shows "1 \<le> length (fitLines (fitTextBlock ctx rawText options))"
proof -
  have "fitLines (fitTextBlock ctx rawText options) \<noteq> []"
    unfolding fitTextBlock_fitLoop using assms by (rule fitLoop_lines_nonempty)
  then show ?thesis by (cases "fitLines (fitTextBlock ctx rawText options)") auto
qed

theorem fitTextBlock_never_empty_witness:
  "1 \<le> maxLines titleOptions
   \<and> 1 \<le> length (fitLines (fitTextBlock fixedPitch [] titleOptions))
   \<and> 1 \<le> length (fitLines (fitTextBlock fixedPitch ''   '' titleOptions))"
proof -
  have h: "1 \<le> maxLines titleOptions" by (simp add: titleOptions_def)
  show ?thesis
    using h fitTextBlock_never_empty[OF h, of fixedPitch "[]"]
      fitTextBlock_never_empty[OF h, of fixedPitch "''   ''"] by simp
qed

end
